theory Spec2Isabelle
  imports Main "HOL-Library.Word"
begin

section \<open>The integer type\<close>

text \<open>
  Every value of \<^verbatim>\<open>src/main.c\<close> is a C \<^verbatim>\<open>int\<close>. It is modelled as a 32-bit word:
  \<open>+\<close>, \<open>-\<close> and \<open>*\<close> wrap around (two's complement), \<open>sint\<close> reads the signed
  value, and the comparisons of the source are the signed ones, \<open>\<le>s\<close> and \<open><s\<close>.
\<close>

type_synonym cint = "32 word"

section \<open>Utility functions\<close>

definition add :: "cint \<Rightarrow> cint \<Rightarrow> cint" where
  "add a b = a + b"

definition multiply :: "cint \<Rightarrow> cint \<Rightarrow> cint" where
  "multiply a b = a * b"

definition square :: "cint \<Rightarrow> cint" where
  "square x = multiply x x"

section \<open>Computational kernels\<close>

text \<open>
  \<^verbatim>\<open>for (int i = 0; i < n; i++) sum = add(sum, square(i));\<close>
  The loop is the recursion on its state \<open>(i, sum)\<close>; the accumulator is called
  \<open>sum_acc\<close> because \<open>sum\<close> is a constant of HOL. The counter stops at \<open>n\<close> before it
  can wrap, so the loop always ends.
\<close>

function compute_series_loop :: "cint \<Rightarrow> cint \<Rightarrow> cint \<Rightarrow> cint" where
  "compute_series_loop n i sum_acc =
     (if i <s n then compute_series_loop n (i + 1) (add sum_acc (square i)) else sum_acc)"
  by pat_completeness auto

termination compute_series_loop
proof (relation "measure (\<lambda>(n, i, sum_acc). nat (sint n - sint i))")
  show "wf (measure (\<lambda>(n, i, sum_acc). nat (sint n - sint i)))"
    by simp
next
  fix n i sum_acc :: cint
  assume less: "i <s n"
  have "sint n < 2 ^ 31"
    using sint_lt [of n] by simp
  with less have below: "sint i + 1 < 2 ^ 31"
    by (simp add: word_sless_alt)
  have "- (2 ^ 31) \<le> sint i"
    using sint_ge [of i] by simp
  with below have "signed_take_bit 31 (sint i + 1) = sint i + 1"
    by (intro signed_take_bit_int_eq_self) simp_all
  then have "sint (i + 1) = sint i + 1"
    by (simp add: sint_word_add)
  with less show "((n, i + 1, add sum_acc (square i)), (n, i, sum_acc))
                  \<in> measure (\<lambda>(n, i, sum_acc). nat (sint n - sint i))"
    by (simp add: word_sless_alt)
qed

declare compute_series_loop.simps [simp del]

definition compute_series :: "cint \<Rightarrow> cint" where
  "compute_series n = compute_series_loop n 0 0"

text \<open>
  \<^verbatim>\<open>for (int i = 1; i <= n; i++) prod = multiply(prod, i);\<close>
  When \<open>n\<close> is the largest int, \<open>i <= n\<close> holds for every \<open>i\<close> and the wrapping counter
  never leaves the loop, so the loop is a partial function: \<open>None\<close> is "does not
  return". The accumulator is \<open>prod_acc\<close> because \<open>prod\<close> is a constant of HOL.
\<close>

partial_function (option) compute_product_loop :: "cint \<Rightarrow> cint \<Rightarrow> cint \<Rightarrow> cint option" where
  "compute_product_loop n i prod_acc =
     (if i \<le>s n then compute_product_loop n (i + 1) (multiply prod_acc i) else Some prod_acc)"

declare compute_product_loop.simps [code]

definition compute_product :: "cint \<Rightarrow> cint option" where
  "compute_product n = compute_product_loop n 1 1"

section \<open>Helper functions\<close>

definition helper_A :: "cint \<Rightarrow> cint" where
  "helper_A x = add x 10"

definition helper_B :: "cint \<Rightarrow> cint" where
  "helper_B x = helper_A x + square x"

section \<open>Dispatcher function\<close>

definition process :: "cint \<Rightarrow> cint \<Rightarrow> cint option" where
  "process mode v =
     (if mode = 0 then Some (compute_series v)
      else if mode = 1 then compute_product v
      else Some (helper_B v))"

section \<open>Cyclic calls\<close>

function cycle_1 :: "cint \<Rightarrow> cint" and cycle_2 :: "cint \<Rightarrow> cint" where
  "cycle_1 x = (if x \<le>s 0 then x else cycle_2 (x - 1))"
| "cycle_2 x = cycle_1 (x - 1)"
  by pat_completeness auto

text \<open>
  The measure of a call: twice the positive part of the argument for \<open>cycle_1\<close>, and
  one more than the measure of the call it makes for \<open>cycle_2\<close>.
\<close>

definition cycle_measure :: "cint + cint \<Rightarrow> nat" where
  "cycle_measure c =
     (case c of Inl x \<Rightarrow> 2 * nat (sint x) | Inr x \<Rightarrow> 2 * nat (sint (x - 1)) + 1)"

termination cycle_1
proof (relation "measure cycle_measure")
  show "wf (measure cycle_measure)"
    by simp
next
  fix x :: cint
  assume "\<not> x \<le>s 0"
  then have pos: "0 < sint x"
    by (simp add: word_sle_eq)
  have "sint x < 2 ^ 31"
    using sint_lt [of x] by simp
  with pos have "signed_take_bit 31 (sint x - 2) = sint x - 2"
    by (intro signed_take_bit_int_eq_self) simp_all
  then have "sint (x - 1 - 1) = sint x - 2"
    using sint_word_diff [of x 2] by simp
  with pos show "(Inr (x - 1), Inl x) \<in> measure cycle_measure"
    by (simp add: cycle_measure_def)
next
  fix x :: cint
  show "(Inl (x - 1), Inr x) \<in> measure cycle_measure"
    by (simp add: cycle_measure_def)
qed

declare cycle_1.simps [simp del]
declare cycle_2.simps [simp del]

text \<open>
  The same two functions with a bound on the depth of the calls: each call spends
  one unit of fuel, and \<open>None\<close> is a chain of calls deeper than the bound.
\<close>

fun cycle_1_fuel :: "nat \<Rightarrow> cint \<Rightarrow> cint option"
  and cycle_2_fuel :: "nat \<Rightarrow> cint \<Rightarrow> cint option" where
  "cycle_1_fuel 0 x = None"
| "cycle_1_fuel (Suc k) x = (if x \<le>s 0 then Some x else cycle_2_fuel k (x - 1))"
| "cycle_2_fuel 0 x = None"
| "cycle_2_fuel (Suc k) x = cycle_1_fuel k (x - 1)"

section \<open>Dead code\<close>

definition unused_function :: "cint \<Rightarrow> cint" where
  "unused_function x = x * 42"

section \<open>Entry point\<close>

text \<open>
  The conversion \<^verbatim>\<open>%d\<close> of \<^verbatim>\<open>printf\<close>: the signed value in decimal, a minus sign
  before a negative one, no padding.
\<close>

definition digit_char :: "nat \<Rightarrow> char" where
  "digit_char d = ''0123456789'' ! d"

fun show_nat :: "nat \<Rightarrow> string" where
  "show_nat n = (if n < 10 then [digit_char n] else show_nat (n div 10) @ [digit_char (n mod 10)])"

declare show_nat.simps [simp del]

definition show_int :: "int \<Rightarrow> string" where
  "show_int k = (if k < 0 then CHR ''-'' # show_nat (nat (- k)) else show_nat (nat k))"

definition format_d :: "cint \<Rightarrow> string" where
  "format_d x = show_int (sint x)"

text \<open>\<^verbatim>\<open>printf("%d %d %d\n", a, b, c)\<close>: the characters written to standard output.\<close>

definition printf_d_d_d :: "cint \<Rightarrow> cint \<Rightarrow> cint \<Rightarrow> string" where
  "printf_d_d_d a b c = format_d a @ '' '' @ format_d b @ '' '' @ format_d c @ [CHR 0x0A]"

text \<open>
  \<open>main\<close> returns what it wrote to standard output and its exit status, or \<open>None\<close>
  if one of its calls does not return. The value of \<open>cycle_1 5\<close> is computed and
  dropped.
\<close>

definition main :: "(string \<times> cint) option" where
  "main =
     Option.bind (process 0 1000) (\<lambda>result1.
     Option.bind (process 1 10) (\<lambda>result2.
     Option.bind (process 2 5) (\<lambda>result3.
       let discarded = cycle_1 5
       in Some (printf_d_d_d result1 result2 result3, 0))))"

section \<open>What the kernels compute\<close>

text \<open>
  The two kernels as the specification words them: the sum of \<open>square k\<close> for
  \<open>k = 0, \<dots>, n - 1\<close> and the product of \<open>k = 1, \<dots>, n\<close>, both accumulated from the
  left with the program's own \<open>add\<close> and \<open>multiply\<close>. The ranges are empty when
  \<open>n \<le> 0\<close>.
\<close>

definition series_spec :: "cint \<Rightarrow> cint" where
  "series_spec n = foldl (\<lambda>acc k. add acc (square (word_of_int k))) 0 [0..sint n - 1]"

definition product_spec :: "cint \<Rightarrow> cint" where
  "product_spec n = foldl (\<lambda>acc k. multiply acc (word_of_int k)) 1 [1..sint n]"

section \<open>Signed arithmetic without wrap-around\<close>

lemma sint_succ: "sint (i :: cint) < 2147483647 \<Longrightarrow> sint (i + 1) = sint i + 1"
proof -
  assume below: "sint i < 2147483647"
  have lower: "- (2 ^ 31) \<le> sint i"
    using sint_ge [of i] by simp
  have "sint (i + 1) = signed_take_bit 31 (sint i + 1)"
    by (simp add: sint_word_add)
  also have "\<dots> = sint i + 1"
    using below lower by (intro signed_take_bit_int_eq_self) simp_all
  finally show ?thesis .
qed

lemma sint_pred: "- 2147483648 < sint (x :: cint) \<Longrightarrow> sint (x - 1) = sint x - 1"
proof -
  assume above: "- 2147483648 < sint x"
  have upper: "sint x < 2 ^ 31"
    using sint_lt [of x] by simp
  have "sint (x - 1) = signed_take_bit 31 (sint x - 1)"
    by (simp add: sint_word_diff)
  also have "\<dots> = sint x - 1"
    using above upper by (intro signed_take_bit_int_eq_self) simp_all
  finally show ?thesis .
qed

lemma sint_below_max: "sint (x :: cint) \<le> 2147483647"
  using sint_lt [of x] by simp

lemma sless_succ: "i <s n \<Longrightarrow> sint (i + 1) = sint i + 1" for i n :: cint
  using sint_below_max [of n] by (intro sint_succ) (simp add: word_sless_alt)

section \<open>The loops\<close>

lemma compute_series_loop_foldl:
  "compute_series_loop n i s =
     foldl (\<lambda>acc k. add acc (square (word_of_int k))) s [sint i..sint n - 1]"
proof (induction n i s rule: compute_series_loop.induct)
  case (1 n i s)
  show ?case
  proof (cases "i <s n")
    case True
    then have le: "sint i \<le> sint n - 1"
      by (simp add: word_sless_alt)
    have "[sint i..sint n - 1] = sint i # [sint (i + 1)..sint n - 1]"
      using upto_rec1 [OF le] True by (simp add: sless_succ)
    with True 1 show ?thesis
      by (simp add: compute_series_loop.simps [of n i s])
  next
    case False
    then show ?thesis
      by (simp add: compute_series_loop.simps [of n i s] word_sless_alt)
  qed
qed

lemma compute_series_spec: "compute_series n = series_spec n"
  by (simp add: compute_series_def series_spec_def compute_series_loop_foldl)

lemma series_spec_nonpos: "n \<le>s 0 \<Longrightarrow> series_spec n = 0"
  by (simp add: series_spec_def word_sle_eq)

lemma compute_product_loop_foldl:
  "sint n < 2147483647 \<Longrightarrow>
   compute_product_loop n i p =
     Some (foldl (\<lambda>acc k. multiply acc (word_of_int k)) p [sint i..sint n])"
proof (induction "nat (sint n + 1 - sint i)" arbitrary: i p)
  case 0
  then have "\<not> i \<le>s n"
    by (simp add: word_sle_eq)
  then show ?case
    by (simp add: compute_product_loop.simps [of n i p] word_sle_eq)
next
  case (Suc d)
  then have le: "sint i \<le> sint n"
    by linarith
  with Suc.prems have step: "sint (i + 1) = sint i + 1"
    by (intro sint_succ) simp
  with Suc.hyps have "d = nat (sint n + 1 - sint (i + 1))"
    by simp
  from Suc.hyps(1) [OF this Suc.prems, of "multiply p i"]
  have "compute_product_loop n (i + 1) (multiply p i) =
          Some (foldl (\<lambda>acc k. multiply acc (word_of_int k)) (multiply p i) [sint i + 1..sint n])"
    by (simp add: step)
  with le show ?case
    by (simp add: compute_product_loop.simps [of n i p] word_sle_eq upto_rec1 [OF le])
qed

lemma sint_neq_max: "n \<noteq> 2147483647 \<Longrightarrow> sint n < 2147483647" for n :: cint
proof -
  assume neq: "n \<noteq> 2147483647"
  have "sint n \<noteq> 2147483647"
  proof
    assume "sint n = 2147483647"
    then have "(word_of_int (sint n) :: cint) = word_of_int 2147483647"
      by (rule arg_cong)
    with neq show False
      by simp
  qed
  with sint_below_max [of n] show ?thesis
    by simp
qed

lemma compute_product_spec: "n \<noteq> 2147483647 \<Longrightarrow> compute_product n = Some (product_spec n)"
  by (simp add: compute_product_def product_spec_def compute_product_loop_foldl sint_neq_max)

lemma product_spec_nonpos: "n \<le>s 0 \<Longrightarrow> product_spec n = 1"
  by (simp add: product_spec_def word_sle_eq)

lemma foldl_multiply_fact:
  "foldl (\<lambda>acc k. multiply acc (word_of_int k)) 1 [1..int m] = word_of_nat (fact m)"
proof (induction m)
  case 0
  show ?case by simp
next
  case (Suc m)
  have "[1..int (Suc m)] = [1..int m] @ [int m + 1]"
    using upto_rec2 [of 1 "int (Suc m)"] by simp
  with Suc show ?case
    by (simp add: multiply_def algebra_simps)
qed

lemma product_spec_fact: "product_spec n = word_of_nat (fact (nat (sint n)))"
proof (cases "0 \<le> sint n")
  case True
  then show ?thesis
    using foldl_multiply_fact [of "nat (sint n)"] by (simp add: product_spec_def)
next
  case False
  then show ?thesis
    by (simp add: product_spec_def)
qed

lemma compute_product_max_None_aux:
  assumes returns: "compute_product_loop n i p = Some y"
  shows "n \<noteq> 2147483647"
proof (rule compute_product_loop.raw_induct [where P = "\<lambda>n i p y. n \<noteq> 2147483647", OF _ returns])
  fix loop :: "cint \<Rightarrow> cint \<Rightarrow> cint \<Rightarrow> cint option" and n i p y :: cint
  assume calls: "\<And>n i p y. loop n i p = Some y \<Longrightarrow> n \<noteq> 2147483647"
    and body: "(if i \<le>s n then loop n (i + 1) (multiply p i) else Some p) = Some y"
  show "n \<noteq> 2147483647"
  proof
    assume top: "n = 2147483647"
    have "i \<le>s n"
      using sint_below_max [of i] by (simp add: top word_sle_eq)
    with body have "loop n (i + 1) (multiply p i) = Some y"
      by simp
    from calls [OF this] top show False
      by simp
  qed
qed

section \<open>The cyclic pair\<close>

lemma cycle_1_decreases:
  "\<not> x \<le>s 0 \<Longrightarrow> cycle_measure (Inr (x - 1)) < cycle_measure (Inl x)"
proof -
  assume "\<not> x \<le>s 0"
  then have pos: "0 < sint x"
    by (simp add: word_sle_eq)
  then have one: "sint (x - 1) = sint x - 1"
    by (intro sint_pred) simp
  with pos have "sint (x - 1 - 1) = sint x - 2"
    using sint_pred [of "x - 1"] by simp
  with pos show ?thesis
    by (simp add: cycle_measure_def)
qed

lemma cycle_2_decreases: "cycle_measure (Inl (x - 1)) < cycle_measure (Inr x)"
  by (simp add: cycle_measure_def)

lemma cycle_dom: "cycle_1_cycle_2_dom c"
proof -
  have "All cycle_1_cycle_2_dom"
  proof (relation "measure cycle_measure")
    show "wf (measure cycle_measure)"
      by simp
  next
    fix x :: cint
    assume "\<not> x \<le>s 0"
    then show "(Inr (x - 1), Inl x) \<in> measure cycle_measure"
      by (simp add: cycle_1_decreases)
  next
    fix x :: cint
    show "(Inl (x - 1), Inr x) \<in> measure cycle_measure"
      by (simp add: cycle_2_decreases)
  qed
  then show ?thesis ..
qed

lemma cycle_fuel_enough:
  "cycle_measure (Inl x) < k \<longrightarrow> cycle_1_fuel k x = Some (cycle_1 x)"
  "cycle_measure (Inr x) < k \<longrightarrow> cycle_2_fuel k x = Some (cycle_2 x)"
proof (induction k arbitrary: x)
  case 0
  { case 1 show ?case by simp }
  { case 2 show ?case by simp }
next
  case (Suc k)
  { case 1
    show ?case
    proof (cases "x \<le>s 0")
      case True
      then show ?thesis by (simp add: cycle_1.simps [of x])
    next
      case False
      from cycle_1_decreases [OF this] Suc(2) [of "x - 1"] False show ?thesis
        by (simp add: cycle_1.simps [of x])
    qed }
  { case 2
    from cycle_2_decreases [of x] Suc(1) [of "x - 1"] show ?case
      by (simp add: cycle_2.simps [of x]) }
qed

lemma sint_eqD: "sint x = k \<Longrightarrow> x = word_of_int k" for x :: cint
proof -
  assume "sint x = k"
  then have "(word_of_int (sint x) :: cint) = word_of_int k"
    by (rule arg_cong)
  then show ?thesis
    by simp
qed

lemma cycle_1_nonpos: "x \<le>s 0 \<Longrightarrow> cycle_1 x = x"
  by (simp add: cycle_1.simps [of x])

lemma cycle_parity:
  "0 \<le> sint x \<longrightarrow> cycle_1 x = (if even (sint x) then 0 else - 1)"
  "0 \<le> sint x \<longrightarrow> cycle_2 x = (if even (sint x) then - 1 else 0)"
proof (induction x and x rule: cycle_1_cycle_2.induct)
  case (1 x)
  show ?case
  proof
    assume nonneg: "0 \<le> sint x"
    show "cycle_1 x = (if even (sint x) then 0 else - 1)"
    proof (cases "x \<le>s 0")
      case True
      with nonneg have "sint x = 0"
        by (simp add: word_sle_eq)
      then have "x = 0"
        by (rule sint_eqD [of x 0, simplified])
      then show ?thesis
        by (simp add: cycle_1_nonpos)
    next
      case False
      then have pos: "0 < sint x"
        by (simp add: word_sle_eq)
      then have "sint (x - 1) = sint x - 1"
        by (intro sint_pred) simp
      with 1 False pos show ?thesis
        by (simp add: cycle_1.simps [of x])
    qed
  qed
next
  case (2 x)
  show ?case
  proof
    assume nonneg: "0 \<le> sint x"
    then have step: "sint (x - 1) = sint x - 1"
      by (intro sint_pred) simp
    show "cycle_2 x = (if even (sint x) then - 1 else 0)"
    proof (cases "sint x = 0")
      case True
      then have "x = 0"
        by (rule sint_eqD [of x 0, simplified])
      then show ?thesis
        by (simp add: cycle_2.simps [of 0] cycle_1_nonpos)
    next
      case False
      with nonneg 2 step show ?thesis
        by (simp add: cycle_2.simps [of x])
    qed
  qed
qed

section \<open>The sum of squares in closed form\<close>

lemma sum_squares_closed:
  "0 \<le> m \<Longrightarrow> 6 * sum_list (map (\<lambda>k. k * k) [0..m]) = m * (m + 1) * (2 * m + 1)" for m :: int
proof (induction m rule: int_ge_induct)
  case base
  show ?case by simp
next
  case (step m)
  then have "[0..m + 1] = [0..m] @ [m + 1]"
    using upto_rec2 [of 0 "m + 1"] by simp
  with step show ?case
    by (simp add: algebra_simps)
qed

lemma foldl_add_square:
  "foldl (\<lambda>acc k. add acc (square (word_of_int k))) s ks
     = s + word_of_int (sum_list (map (\<lambda>k. k * k) ks))"
  by (induction ks arbitrary: s) (simp_all add: add_def square_def multiply_def algebra_simps)

lemma series_spec_closed:
  "0 < sint n \<Longrightarrow>
   series_spec n = word_of_int ((sint n - 1) * sint n * (2 * sint n - 1) div 6)"
proof -
  assume "0 < sint n"
  then have "6 * sum_list (map (\<lambda>k. k * k) [0..sint n - 1])
               = (sint n - 1) * (sint n - 1 + 1) * (2 * (sint n - 1) + 1)"
    by (intro sum_squares_closed) simp
  then have "6 * sum_list (map (\<lambda>k. k * k) [0..sint n - 1])
               = (sint n - 1) * sint n * (2 * sint n - 1)"
    by (simp add: algebra_simps)
  then have "sum_list (map (\<lambda>k. k * k) [0..sint n - 1])
               = (sint n - 1) * sint n * (2 * sint n - 1) div 6"
    by simp
  then show ?thesis
    by (simp add: series_spec_def foldl_add_square)
qed

lemma series_max: "compute_series 2147483647 = 3221225471"
  using series_spec_closed [of 2147483647] by (simp add: compute_series_spec)

lemma int_min_nonpos: "(2147483648 :: cint) \<le>s 0"
  by (simp add: word_sle_eq)

lemma series_int_min: "compute_series 2147483648 = 0"
  by (simp add: compute_series_spec series_spec_nonpos int_min_nonpos)

lemma series_step:
  "0 \<le>s n \<Longrightarrow> n \<noteq> 2147483647 \<Longrightarrow> series_spec (n + 1) = add (series_spec n) (square n)"
proof -
  assume "0 \<le>s n" and "n \<noteq> 2147483647"
  then have nonneg: "0 \<le> sint n" and step: "sint (n + 1) = sint n + 1"
    by (simp_all add: word_sle_eq sint_succ sint_neq_max)
  from nonneg have "[0..sint n] = [0..sint n - 1] @ [sint n]"
    by (rule upto_rec2)
  with step show ?thesis
    by (simp add: series_spec_def)
qed

section \<open>Values on the inputs of the specification\<close>

lemma series_1000: "compute_series 1000 = 332833500"
  using series_spec_closed [of 1000] by (simp add: compute_series_spec)

lemma series_small: "compute_series 0 = 0" "compute_series 1 = 0" "compute_series 2 = 1"
  by code_simp+

lemma product_small: "compute_product 0 = Some 1" "compute_product 1 = Some 1"
  by code_simp+

lemma product_10: "compute_product 10 = Some 3628800"
  by (simp add: compute_product_spec product_spec_fact fact_numeral)

lemma show_nat_digit: "n < 10 \<Longrightarrow> show_nat n = [digit_char n]"
  by (simp add: show_nat.simps [of n])

lemma show_nat_step: "10 \<le> n \<Longrightarrow> show_nat n = show_nat (n div 10) @ [digit_char (n mod 10)]"
  by (simp add: show_nat.simps [of n])

lemma format_values:
  "format_d 332833500 = ''332833500''" "format_d 3628800 = ''3628800''" "format_d 40 = ''40''"
  by (simp_all add: format_d_def show_int_def show_nat_step show_nat_digit digit_char_def)

lemma cycle_1_result: "0 \<le> sint x \<Longrightarrow> sint (cycle_1 x) = - (sint x mod 2)"
  using cycle_parity(1) [of x] by (simp add: odd_iff_mod_2_eq_one)

text \<open>
  Below the largest int the loop of \<open>compute_product\<close> returns, with the product
  the specification words and with the values it lists.
\<close>

lemma compute_product_below_max:
  "n \<noteq> 2147483647 \<Longrightarrow>
   compute_product n = Some (if n \<le>s 0 then 1 else product_spec n)
   \<and> compute_product n = Some (word_of_nat (fact (nat (sint n))))
   \<and> compute_product 0 = Some 1 \<and> compute_product 1 = Some 1
   \<and> compute_product 10 = Some 3628800"
proof -
  assume "n \<noteq> 2147483647"
  then have returns: "compute_product n = Some (product_spec n)"
    by (rule compute_product_spec)
  then have "compute_product n = Some (if n \<le>s 0 then 1 else product_spec n)"
    by (simp add: product_spec_nonpos)
  moreover from returns have "compute_product n = Some (word_of_nat (fact (nat (sint n))))"
    by (simp add: product_spec_fact)
  ultimately show ?thesis
    using product_small product_10 by simp
qed

section \<open>The claims\<close>

text \<open>
  Claim C1. Running \<open>main\<close> computes \<open>result1 = process(0, 1000) = 332833500\<close>,
  \<open>result2 = process(1, 10) = 3628800\<close> and \<open>result3 = process(2, 5) = 40\<close>, writes
  exactly the line \<^verbatim>\<open>332833500 3628800 40\<close> followed by a newline to standard
  output, and returns the exit status 0.
\<close>

theorem main_output:
  "process 0 1000 = Some 332833500 \<and> process 1 10 = Some 3628800 \<and> process 2 5 = Some 40
   \<and> main = Some (''332833500 3628800 40'' @ [CHR 0x0A], 0)"
proof -
  have r1: "process 0 1000 = Some 332833500"
    by (simp add: process_def series_1000)
  have r2: "process 1 10 = Some 3628800"
    by (simp add: process_def product_10)
  have r3: "process 2 5 = Some 40"
    by (simp add: process_def helper_A_def helper_B_def add_def square_def multiply_def)
  have "main = Some (printf_d_d_d 332833500 3628800 40, 0)"
    by (simp add: main_def r1 r2 r3)
  with r1 r2 r3 show ?thesis
    by (simp add: printf_d_d_d_def format_values)
qed

text \<open>
  Claim C2. For every mode and value, \<open>process\<close> gives the result of
  \<open>compute_series\<close> when the mode is 0, of \<open>compute_product\<close> when it is 1, and of
  \<open>helper_B\<close> for every other mode, negative ones included: an unrecognised mode is
  no error, it returns the value of \<open>helper_B\<close>.
\<close>

theorem process_dispatch:
  "process 0 v = Some (compute_series v) \<and> process 1 v = compute_product v
   \<and> (mode \<noteq> 0 \<and> mode \<noteq> 1 \<longrightarrow> process mode v = Some (helper_B v))
   \<and> process 0 1000 = Some (compute_series 1000) \<and> process 1 10 = compute_product 10
   \<and> process 2 5 = Some (helper_B 5) \<and> process 99 5 = Some (helper_B 5)"
  by (simp add: process_def)

theorem process_dispatch_witness:
  "(- 7 :: cint) \<noteq> 0 \<and> (- 7 :: cint) \<noteq> 1 \<and> process (- 7) 3 = Some 22"
  using process_dispatch [of 3 "- 7"]
  by (simp add: helper_A_def helper_B_def add_def square_def multiply_def)

text \<open>
  Claim C3. For every \<open>n\<close>, \<open>compute_series n\<close> is 0 when \<open>n \<le> 0\<close> and otherwise the
  sum of \<open>square k\<close> for \<open>k = 0, \<dots>, n - 1\<close>, accumulated from the left; in particular
  it is 0 at 0, 0 at 1, 1 at 2 and 332833500 at 1000.
\<close>

theorem compute_series_correct:
  "compute_series n = (if n \<le>s 0 then 0 else series_spec n)
   \<and> compute_series 0 = 0 \<and> compute_series 1 = 0 \<and> compute_series 2 = 1
   \<and> compute_series 1000 = 332833500"
proof -
  have "compute_series n = (if n \<le>s 0 then 0 else series_spec n)"
    by (simp add: compute_series_spec series_spec_nonpos)
  with series_small series_1000 show ?thesis
    by simp
qed

text \<open>
  Claim C4. For every \<open>n\<close>, \<open>compute_product n\<close> returns 1 when \<open>n \<le> 0\<close> and otherwise
  the product of \<open>1, \<dots>, n\<close>, accumulated from the left into a running product that
  starts at 1. The code misses this at the largest int: with \<open>n = 2147483647\<close> the
  test \<open>i <= n\<close> of the loop holds for every value of the counter, \<open>i++\<close> overflows,
  and with the wrapping counter the call never reaches \<^verbatim>\<open>return prod;\<close>. The loop
  of \<open>compute_series\<close>, whose test is \<open>i < n\<close>, returns there.
\<close>

theorem compute_product_int_max_no_return: "compute_product 2147483647 = None"
proof (cases "compute_product 2147483647")
  case None
  then show ?thesis .
next
  case (Some y)
  then show ?thesis
    using compute_product_max_None_aux [of 2147483647 1 1 y] by (simp add: compute_product_def)
qed

text \<open>
  Claim C5. For every \<open>x\<close>, \<open>helper_A x = x + 10\<close> and
  \<open>helper_B x = helper_A x + square x = (x + 10) + x * x\<close>; in particular
  \<open>helper_B 5 = 40\<close> and \<open>helper_B 0 = 10\<close>.
\<close>

theorem helper_values:
  "helper_A x = x + 10 \<and> helper_B x = helper_A x + square x \<and> helper_B x = (x + 10) + x * x
   \<and> helper_B 5 = 40 \<and> helper_B 0 = 10"
  by (simp add: helper_A_def helper_B_def add_def square_def multiply_def)

text \<open>
  Claim C6. For every \<open>x\<close>, positive, zero or negative, the calls of \<open>cycle_1 x\<close> and
  of \<open>cycle_2 x\<close> terminate: every chain of recursive calls that starts at either of
  them is finite, and some bound on the depth of the calls is enough for each to
  return its value.
\<close>

theorem cycle_terminates:
  "cycle_1_cycle_2_dom (Inl x) \<and> cycle_1_cycle_2_dom (Inr x)
   \<and> (\<exists>k. cycle_1_fuel k x = Some (cycle_1 x))
   \<and> (\<exists>k. cycle_2_fuel k x = Some (cycle_2 x))"
proof -
  have "cycle_1_fuel (Suc (cycle_measure (Inl x))) x = Some (cycle_1 x)"
    using cycle_fuel_enough(1) [of x "Suc (cycle_measure (Inl x))"] by simp
  moreover have "cycle_2_fuel (Suc (cycle_measure (Inr x))) x = Some (cycle_2 x)"
    using cycle_fuel_enough(2) [of x "Suc (cycle_measure (Inr x))"] by simp
  ultimately show ?thesis
    using cycle_dom [of "Inl x"] cycle_dom [of "Inr x"] by blast
qed

text \<open>
  Claim C7. For every \<open>x \<le> 0\<close>, \<open>cycle_1 x\<close> returns \<open>x\<close> itself. For every \<open>x\<close>, the
  value of \<open>cycle_1 x\<close> is not positive, and it is the value the decrements reach:
  \<open>x\<close> less two for each of the \<open>k\<close> rounds through \<open>cycle_2\<close> and back, where the
  argument of \<open>cycle_1\<close> was positive at the start of each round.
\<close>

theorem cycle_1_value:
  "(x \<le>s 0 \<longrightarrow> cycle_1 x = x) \<and> cycle_1 x \<le>s 0
   \<and> (\<exists>k. sint (cycle_1 x) = sint x - 2 * int k \<and> (\<forall>j < k. 0 < sint x - 2 * int j))"
proof (cases "x \<le>s 0")
  case True
  then have "cycle_1 x = x"
    by (rule cycle_1_nonpos)
  moreover from this have
    "sint (cycle_1 x) = sint x - 2 * int 0 \<and> (\<forall>j < 0. 0 < sint x - 2 * int j)"
    by simp
  ultimately show ?thesis
    using True by metis
next
  case False
  then have pos: "0 < sint x"
    by (simp add: word_sle_eq)
  then have res: "sint (cycle_1 x) = - (sint x mod 2)"
    by (intro cycle_1_result) simp
  define k where "k = nat ((sint x + 1) div 2)"
  from pos have k: "2 * int k = sint x + sint x mod 2"
    unfolding k_def by (simp add: nat_0_le) presburger
  have "sint (cycle_1 x) = sint x - 2 * int k"
    using res k by simp
  moreover have "\<forall>j < k. 0 < sint x - 2 * int j"
  proof (intro allI impI)
    fix j
    assume "j < k"
    then have "2 * int j + 2 \<le> 2 * int k"
      by simp
    with k show "0 < sint x - 2 * int j"
      by presburger
  qed
  moreover have "cycle_1 x \<le>s 0"
    using res by (simp add: word_sle_eq)
  ultimately show ?thesis
    using False by blast
qed

theorem cycle_1_value_witness:
  "(- 3 :: cint) \<le>s 0 \<and> cycle_1 (- 3) = - 3 \<and> cycle_1 5 \<le>s 0"
  using cycle_1_value [of "- 3"] cycle_1_value [of 5]
  by (simp add: word_sle_eq)

text \<open>
  Claim C8. For all \<open>a\<close> and \<open>b\<close>, \<open>add a b\<close> is \<open>a + b\<close> and \<open>multiply a b\<close> is \<open>a * b\<close>
  in 32-bit two's complement arithmetic: the signed value of the result is the
  signed value of the exact sum or product wrapped to 32 bits. For every \<open>x\<close>,
  \<open>square x = multiply x x\<close>.
\<close>

theorem arithmetic_wraps:
  "add a b = a + b \<and> multiply a b = a * b \<and> square x = multiply x x
   \<and> sint (add a b) = signed_take_bit 31 (sint a + sint b)
   \<and> sint (multiply a b) = signed_take_bit 31 (sint a * sint b)
   \<and> add 2147483647 1 = - 2147483648 \<and> multiply 65536 65536 = 0"
  by (simp add: add_def multiply_def square_def sint_word_add sint_word_mult)

text \<open>
  Claim C9, as stated, is the recurrence
  \<open>compute_series (n + 1) = add (compute_series n) (square n)\<close> for every \<open>n \<ge> 0\<close>. At
  \<open>n = 2147483647\<close> the argument \<open>n + 1\<close> wraps to the least int, where
  \<open>compute_series\<close> is 0, and the right-hand side is not 0.
\<close>

theorem series_recurrence_counterexample:
  "0 \<le>s (2147483647 :: cint)
   \<and> compute_series (2147483647 + 1) \<noteq> add (compute_series 2147483647) (square 2147483647)"
  by (simp add: series_int_min series_max add_def square_def multiply_def word_sle_eq)

text \<open>
  Claim C9, amended. For every \<open>n\<close> with \<open>0 \<le> n\<close> and \<open>n \<noteq> 2147483647\<close>,
  \<open>compute_series (n + 1) = add (compute_series n) (square n)\<close>.
\<close>

theorem series_recurrence:
  "0 \<le>s n \<Longrightarrow> n \<noteq> 2147483647 \<Longrightarrow>
   compute_series (n + 1) = add (compute_series n) (square n)"
  by (simp add: compute_series_spec series_step)

theorem series_recurrence_witness:
  "0 \<le>s (3 :: cint) \<and> (3 :: cint) \<noteq> 2147483647 \<and> compute_series 4 = 14
   \<and> add (compute_series 3) (square 3) = 14"
proof -
  have "compute_series 3 = 5" "compute_series 4 = 14"
    by code_simp+
  with series_recurrence [of 3] show ?thesis
    by (simp add: add_def square_def multiply_def word_sle_eq)
qed

text \<open>
  Claim C10. For every \<open>x > 0\<close>, \<open>cycle_1 x\<close> is 0 when \<open>x\<close> is even and \<open>-1\<close> when \<open>x\<close> is
  odd; and for every \<open>x\<close>, \<open>cycle_1 (cycle_1 x) = cycle_1 x\<close>.
\<close>

theorem cycle_1_parity:
  "(0 <s x \<longrightarrow> cycle_1 x = (if even (sint x) then 0 else - 1))
   \<and> cycle_1 (cycle_1 x) = cycle_1 x"
proof -
  have "cycle_1 x \<le>s 0"
  proof (cases "x \<le>s 0")
    case True
    then show ?thesis
      by (simp add: cycle_1_nonpos)
  next
    case False
    then have "0 \<le> sint x"
      by (simp add: word_sle_eq)
    with cycle_parity(1) [of x] show ?thesis
      by (simp add: word_sle_eq)
  qed
  then have "cycle_1 (cycle_1 x) = cycle_1 x"
    by (rule cycle_1_nonpos)
  with cycle_parity(1) [of x] show ?thesis
    by (simp add: word_sless_alt)
qed

theorem cycle_1_parity_witness:
  "0 <s (5 :: cint) \<and> cycle_1 5 = - 1 \<and> 0 <s (6 :: cint) \<and> cycle_1 6 = 0"
  using cycle_1_parity [of 5] cycle_1_parity [of 6]
  by (simp add: word_sless_alt)

end
